theory Spec2Isabelle
  imports Main
begin

section \<open>Text helpers\<close>

text \<open>
  File contents are modelled as \<^typ>\<open>string\<close>, one \<^typ>\<open>char\<close> per byte. The
  development covers ASCII log files, for which Python's \<^verbatim>\<open>decode('utf-8')\<close> and
  \<^verbatim>\<open>encode('utf-8')\<close> are the identity, so a byte buffer and its decoded text are
  the same list.
\<close>

abbreviation LF :: char where "LF \<equiv> CHR 0x0A"
abbreviation CR :: char where "CR \<equiv> CHR 0x0D"

text \<open>\<^verbatim>\<open>str.isspace\<close> on an ASCII character: TAB, LF, VT, FF, CR, FS, GS, RS, US, space.\<close>

definition is_space :: "char \<Rightarrow> bool" where
  "is_space c = (c \<in> {CHR 0x09, CHR 0x0A, CHR 0x0B, CHR 0x0C, CHR 0x0D,
                      CHR 0x1C, CHR 0x1D, CHR 0x1E, CHR 0x1F, CHR 0x20})"

text \<open>The truth value of \<^verbatim>\<open>line.strip()\<close>: some character is not whitespace.\<close>

definition nonblank :: "string \<Rightarrow> bool" where
  "nonblank l = (\<exists>c \<in> set l. \<not> is_space c)"

text \<open>\<^verbatim>\<open>text.split('\n')\<close>: never empty, one more element than there are separators.\<close>

fun split_nl :: "string \<Rightarrow> string list" where
  "split_nl [] = [[]]"
| "split_nl (c # cs) =
     (if c = LF then [] # split_nl cs
      else (case split_nl cs of [] \<Rightarrow> [[c]] | l # ls \<Rightarrow> (c # l) # ls))"

text \<open>
  \<^verbatim>\<open>lines[-n:]\<close> for \<open>n \<ge> 0\<close>: the last \<open>n\<close> elements, all of them when the list
  is shorter, and (since \<^verbatim>\<open>-0 == 0\<close>) the whole list for \<open>n = 0\<close>.
\<close>

definition slice_last :: "nat \<Rightarrow> 'a list \<Rightarrow> 'a list" where
  "slice_last n xs = (if n = 0 then xs else drop (length xs - n) xs)"

section \<open>Reverse line reader: \<^verbatim>\<open>LogTailWatcher.get_last_lines\<close>\<close>

text \<open>
  The \<^verbatim>\<open>while len(lines) < n and pos > 0\<close> loop. \<open>content\<close> is the file, \<open>chunk_size\<close>
  the fixed read size; the state is \<open>(lines, buffer, pos)\<close>. \<^verbatim>\<open>f.seek(pos); f.read(read_size)\<close>
  is \<open>take read_size (drop pos content)\<close>. The early \<^verbatim>\<open>return lines[-n:]\<close> inside the
  loop and the final \<^verbatim>\<open>return lines[-n:] if lines else []\<close> are the two exits.

  The program calls the loop with \<open>chunk_size = min 8192 file_size \<ge> 1\<close>, so every
  pass moves \<open>pos\<close> down. The test \<open>pos' < pos\<close> before the next pass only makes the
  function total for \<open>chunk_size = 0\<close>, which the program never passes; lemma
  \<open>reverse_scan_pass\<close> below shows that the test disappears for \<open>chunk_size > 0\<close>.
\<close>

function reverse_scan ::
  "string \<Rightarrow> nat \<Rightarrow> nat \<Rightarrow> string list \<Rightarrow> string \<Rightarrow> nat \<Rightarrow> string list" where
  "reverse_scan content chunk_size n lines buffer pos =
     (if length lines < n \<and> pos > 0 then
        (let read_size = min chunk_size pos;
             pos' = pos - read_size;
             buffer1 = take read_size (drop pos' content) @ buffer;
             split_lines = split_nl buffer1;
             (buffer', lines1) =
               (if pos' > 0 \<and> length split_lines > 1
                then (hd split_lines, tl split_lines @ lines)
                else ([], split_lines @ lines));
             lines' = filter nonblank lines1
         in if length lines' > n then slice_last n lines'
            else if pos' < pos then reverse_scan content chunk_size n lines' buffer' pos'
            else [])
      else (if lines = [] then [] else slice_last n lines))"
  by pat_completeness auto
termination
  by (relation "measure (\<lambda>(content, chunk_size, n, lines, buffer, pos). pos)") auto

text \<open>
  \<^verbatim>\<open>get_last_lines\<close>: the argument is the file at the path, \<open>None\<close> when the path does
  not exist (or cannot be opened: the \<^verbatim>\<open>except\<close> clause returns \<^verbatim>\<open>[]\<close> too).
\<close>

definition get_last_lines :: "string option \<Rightarrow> nat \<Rightarrow> string list" where
  "get_last_lines file n =
     (case file of
        None \<Rightarrow> []
      | Some content \<Rightarrow>
          (let file_size = length content in
           if file_size = 0 then []
           else reverse_scan content (min 8192 file_size) n [] [] file_size))"

text \<open>
  The specification's reading of "the last \<open>n\<close> non-blank lines": split the whole file on
  the line separator, drop the blank lines, keep the final \<open>n\<close>.
\<close>

definition spec_last_lines :: "string \<Rightarrow> nat \<Rightarrow> string list" where
  "spec_last_lines content n = slice_last n (filter nonblank (split_nl content))"

section \<open>Fan-out registry: \<^verbatim>\<open>WebSocketManager\<close>\<close>

text \<open>
  The two wire messages. The program serialises them with \<^verbatim>\<open>json.dumps\<close>; the model
  keeps the value that is serialised.
\<close>

datatype message = Historical "string list" | Realtime string string

text \<open>
  What a call does to the outside, in program order: the handshake, an attempt to send on
  a channel, and the two mutations of the registry's live set.
\<close>

datatype 'c effect = Accept 'c | Subscribe 'c | Unsubscribe 'c | Send 'c message

text \<open>
  \<^verbatim>\<open>active_connections\<close> is a Python \<^verbatim>\<open>set\<close>: here a list without duplicates, in the
  order in which \<^verbatim>\<open>for connection in self.active_connections\<close> visits it.
  \<open>set_add\<close> is \<^verbatim>\<open>set.add\<close>, \<open>removeAll\<close> is \<^verbatim>\<open>set.discard\<close>.
\<close>

definition set_add :: "'c \<Rightarrow> 'c list \<Rightarrow> 'c list" where
  "set_add x xs = (if x \<in> set xs then xs else xs @ [x])"

definition connect :: "'c \<Rightarrow> 'c list \<Rightarrow> 'c list \<times> 'c effect list" where
  "connect websocket active_connections =
     (set_add websocket active_connections, [Accept websocket, Subscribe websocket])"









section \<open>Subscriber attach: \<^verbatim>\<open>websocket_endpoint\<close>\<close>

text \<open>
  The handler up to its receive loop. \<open>LOG_FILES\<close> is the configured mapping as the list
  of its items, \<open>fs\<close> gives the file at a path (\<open>None\<close> when there is none). Each
  historical line is \<^verbatim>\<open>f"[{log_id}] {line}"\<close>; the message is sent only when the list
  is not empty.
\<close>

definition label :: "string \<Rightarrow> string \<Rightarrow> string" where
  "label log_id line = ''['' @ log_id @ ''] '' @ line"

definition gather_history :: "(string \<times> string) list \<Rightarrow> (string \<Rightarrow> string option) \<Rightarrow> string list" where
  "gather_history LOG_FILES fs =
     concat (map (\<lambda>(log_id, filepath). map (label log_id) (get_last_lines (fs filepath) 5))
                 LOG_FILES)"

definition websocket_endpoint ::
  "(string \<times> string) list \<Rightarrow> (string \<Rightarrow> string option) \<Rightarrow> 'c \<Rightarrow> 'c list
     \<Rightarrow> 'c list \<times> 'c effect list" where
  "websocket_endpoint LOG_FILES fs websocket active_connections =
     (let (active', effects) = connect websocket active_connections;
          historical_lines = gather_history LOG_FILES fs
      in (active',
          effects @ (if historical_lines \<noteq> []
                     then [Send websocket (Historical historical_lines)] else [])))"

section \<open>Tail watcher: \<^verbatim>\<open>LogTailWatcher.watch\<close>\<close>

subsection \<open>The file system as one poll cycle sees it\<close>

text \<open>
  The calls of a cycle that can raise into the handler of \<^verbatim>\<open>watch\<close> (or, for
  \<open>OpStat\<close> and \<open>OpOpen\<close>, into the handlers of \<^verbatim>\<open>_is_rotated\<close> and
  \<^verbatim>\<open>_open_file\<close>): \<^verbatim>\<open>os.stat\<close>, \<^verbatim>\<open>open\<close>/\<^verbatim>\<open>os.fstat\<close>, the seek to the end on the
  first open, the seek to the start after a rotation, \<^verbatim>\<open>tell\<close> after the open,
  \<^verbatim>\<open>os.path.getsize\<close>, the seek to the start after a truncation, the seek to
  \<^verbatim>\<open>self.position\<close>, \<^verbatim>\<open>readline\<close> (an I/O or decoding error),
  \<^verbatim>\<open>manager.broadcast\<close> (it raises when the set of subscribers changes size while it
  sends, see \<open>send_loop\<close>) and \<^verbatim>\<open>tell\<close> after a published line.
\<close>

datatype op = OpStat | OpOpen | OpSeekEnd | OpSeekStart | OpTellOpen | OpGetsize
  | OpSeekTrunc | OpSeekPos | OpReadline | OpBroadcast | OpTellRead

text \<open>
  A snapshot of the world around the watched path, fixed for the length of one cycle:
  the inode the path resolves to (\<open>None\<close> when the path does not exist), the bytes of
  every file by inode (a file that was renamed away stays readable through an open
  handle), and the calls that fail in this cycle. The last two fields say what
  \<^verbatim>\<open>tell\<close> returns in this cycle where the bytes of the file do not settle it (see
  \<open>tell\<close> below).
\<close>

record env =
  path_ino :: "nat option"
  contents :: "nat \<Rightarrow> string"
  fails :: "op \<Rightarrow> bool"
  cookie_ahead :: bool
  cookie :: nat

text \<open>
  An open text-mode handle: the file it was opened on and its read position, the byte
  offset of the next character \<^verbatim>\<open>readline\<close> will return. \<^verbatim>\<open>seek\<close> sets it. A read
  takes the bytes from that position on as the snapshot of the cycle has them.

  The text layer of Python reads the file ahead of the line it returns, keeps what it has
  read, and drops it at the next \<^verbatim>\<open>seek\<close>. The model keeps no such store. It is the
  program as long as no byte that a handle has read ahead is changed before the next
  \<^verbatim>\<open>seek\<close> on that handle. A cycle reads without a \<^verbatim>\<open>seek\<close> only when the size of the
  file is the recorded offset, so this can only go wrong when a file is cut or rewritten
  in place to exactly that size; a file that only grows never does it.
\<close>

record handle =
  h_ino :: nat
  h_pos :: nat

record watcher =
  log_id :: string
  file_h :: "handle option"
  inode :: "nat option"
  first_open :: bool
  position :: nat

definition new_watcher :: "string \<Rightarrow> watcher" where
  "new_watcher lid =
     \<lparr>log_id = lid, file_h = None, inode = None, first_open = True, position = 0\<rparr>"

text \<open>
  Where the coroutine stands between two cycles: at the top of \<^verbatim>\<open>while True\<close>, or
  suspended in the loop of \<^verbatim>\<open>_wait_for_file\<close>, with the local \<^verbatim>\<open>rotated\<close> it will
  come back to.
\<close>

datatype ctl = AtLoopTop | InWaitForFile bool

text \<open>
  What a cycle does to the outside: a call of \<^verbatim>\<open>manager.broadcast(log_id, line)\<close>, a
  wait of one poll interval, and the report of the handler of \<^verbatim>\<open>watch\<close>.
\<close>

datatype event = Broadcast string string | Sleep | WatchError

subsection \<open>Reading a line\<close>

text \<open>
  \<^verbatim>\<open>readline\<close> on a handle opened with \<^verbatim>\<open>newline=None\<close>, applied to the bytes from the
  read position on: the line up to and including its terminator (\<open>LF\<close>, \<open>CR\<close> or
  \<open>CR LF\<close>, each returned as \<open>LF\<close>), or the rest of the file when no terminator
  follows; with it the number of bytes consumed. At end of file the line is empty.
\<close>

fun readline :: "string \<Rightarrow> string \<times> nat" where
  "readline [] = ([], 0)"
| "readline (c # cs) =
     (if c = LF then ([LF], 1)
      else if c = CR then
        (case cs of [] \<Rightarrow> ([LF], 1) | d # _ \<Rightarrow> if d = LF then ([LF], 2) else ([LF], 1))
      else (let (l, k) = readline cs in (c # l, Suc k)))"

text \<open>\<^verbatim>\<open>line.rstrip('\r\n')\<close>: drop every trailing \<open>CR\<close> and \<open>LF\<close>.\<close>

definition rstrip_crlf :: "string \<Rightarrow> string" where
  "rstrip_crlf l = rev (dropWhile (\<lambda>c. c = CR \<or> c = LF) (rev l))"

text \<open>
  \<^verbatim>\<open>tell\<close> after \<^verbatim>\<open>readline\<close>, for a handle that stood at \<open>h\<close> when the read started
  and has consumed \<open>k\<close> bytes. The handle is opened with \<^verbatim>\<open>newline=None\<close>, and
  \<^verbatim>\<open>tell\<close> returns the byte offset of the next character only where the newline decoder
  of the text layer needs no state to get there. Otherwise it returns a number that packs
  the state of the decoder above bit 64 of an offset: a number of at least \<open>2 ^ 64\<close>,
  which no size of a file reaches.

  \<^item> After a line that ended with a \<open>CR\<close> with no \<open>LF\<close> behind it (the last byte consumed
    is a \<open>CR\<close>), \<^verbatim>\<open>tell\<close> always returns such a number.
  \<^item> After another line, when a \<open>CR\<close> lies somewhere in the bytes from the start of the read
    on, it returns such a number or the byte offset, depending on how far the text layer
    has decoded ahead; the snapshot says which with \<open>cookie_ahead\<close>.
  \<^item> When no \<open>CR\<close> lies in the bytes from the start of the read on, it returns the byte
    offset.

  \<open>cookie\<close> is what the number has above \<open>2 ^ 64\<close>; the program only compares it with
  the size of the file.
\<close>

definition tell :: "env \<Rightarrow> handle \<Rightarrow> nat \<Rightarrow> nat" where
  "tell e h k =
     (let ahead = drop (h_pos h) (contents e (h_ino h)) in
      if take k ahead \<noteq> [] \<and> last (take k ahead) = CR then 2 ^ 64 + cookie e
      else if CR \<in> set ahead \<and> cookie_ahead e then 2 ^ 64 + cookie e
      else h_pos h + k)"

subsection \<open>The methods of the watcher\<close>

definition open_file :: "env \<Rightarrow> watcher \<Rightarrow> watcher" where
  "open_file e w =
     (case path_ino e of
        None \<Rightarrow> w\<lparr>file_h := None, inode := None\<rparr>
      | Some i \<Rightarrow>
          if fails e OpOpen then w\<lparr>file_h := None, inode := None\<rparr>
          else w\<lparr>file_h := Some \<lparr>h_ino = i, h_pos = 0\<rparr>, inode := Some i\<rparr>)"

definition is_rotated :: "env \<Rightarrow> watcher \<Rightarrow> bool" where
  "is_rotated e w =
     (case path_ino e of
        None \<Rightarrow> True
      | Some i \<Rightarrow>
          (case inode w of
             None \<Rightarrow> False
           | Some j \<Rightarrow> if fails e OpStat then True else i \<noteq> j))"

definition close_file :: "watcher \<Rightarrow> watcher" where
  "close_file w = w\<lparr>file_h := None\<rparr>"

subsection \<open>One poll cycle\<close>

text \<open>
  A cycle yields the place where the coroutine stops, the watcher and the events of the
  cycle. The handler of \<^verbatim>\<open>watch\<close> closes the file and sleeps; the loop then starts over.
  Calling a method of \<^verbatim>\<open>self.file\<close> while it is \<^verbatim>\<open>None\<close> raises too.
\<close>

type_synonym outcome = "ctl \<times> watcher \<times> event list"

definition on_error :: "watcher \<Rightarrow> event list \<Rightarrow> outcome" where
  "on_error w evs = (AtLoopTop, close_file w, evs @ [WatchError, Sleep])"

text \<open>From \<^verbatim>\<open>if line := self.file.readline()\<close> to the end of the \<^verbatim>\<open>try\<close> block.\<close>

definition read_step :: "env \<Rightarrow> watcher \<Rightarrow> outcome" where
  "read_step e w =
     (case file_h w of
        None \<Rightarrow> on_error w []
      | Some h \<Rightarrow>
          if fails e OpReadline then on_error w []
          else
            (let (line, k) = readline (drop (h_pos h) (contents e (h_ino h)));
                 h' = h\<lparr>h_pos := h_pos h + k\<rparr>;
                 w' = w\<lparr>file_h := Some h'\<rparr>
             in if line \<noteq> [] then
                  (let line' = rstrip_crlf line in
                   if line' \<noteq> [] then
                     (if fails e OpBroadcast then on_error w' [Broadcast (log_id w) line']
                      else if fails e OpTellRead then on_error w' [Broadcast (log_id w) line']
                      else (AtLoopTop, w'\<lparr>position := tell e h k\<rparr>,
                            [Broadcast (log_id w) line']))
                   else (AtLoopTop, w', []))
                else (AtLoopTop, w', [Sleep])))"

text \<open>From \<^verbatim>\<open>size = os.path.getsize(self.filepath)\<close> on.\<close>

definition tail_step :: "env \<Rightarrow> watcher \<Rightarrow> outcome" where
  "tail_step e w =
     (case path_ino e of
        None \<Rightarrow> on_error w []
      | Some i \<Rightarrow>
          if fails e OpGetsize then on_error w []
          else
            (let size = length (contents e i) in
             if size < position w then
               (case file_h w of
                  None \<Rightarrow> on_error w []
                | Some h \<Rightarrow>
                    if fails e OpSeekTrunc then on_error w []
                    else read_step e (w\<lparr>file_h := Some (h\<lparr>h_pos := 0\<rparr>), position := 0\<rparr>))
             else if size > position w then
               (case file_h w of
                  None \<Rightarrow> on_error w []
                | Some h \<Rightarrow>
                    if fails e OpSeekPos then on_error w []
                    else read_step e (w\<lparr>file_h := Some (h\<lparr>h_pos := position w\<rparr>)\<rparr>))
             else read_step e w))"

text \<open>
  \<^verbatim>\<open>self.position = self.file.tell()\<close> after the open and its seek, then the rest of the
  cycle. Nothing is decoded yet, and \<^verbatim>\<open>tell\<close> returns the byte offset of the handle.
\<close>

definition set_position :: "env \<Rightarrow> watcher \<Rightarrow> outcome" where
  "set_position e w =
     (case file_h w of
        None \<Rightarrow> on_error w []
      | Some h \<Rightarrow>
          if fails e OpTellOpen then on_error w []
          else tail_step e (w\<lparr>position := h_pos h\<rparr>))"

text \<open>From \<^verbatim>\<open>self._open_file()\<close> on, once \<^verbatim>\<open>_wait_for_file\<close> has returned.\<close>

definition reopen_step :: "env \<Rightarrow> bool \<Rightarrow> watcher \<Rightarrow> outcome" where
  "reopen_step e rotated w =
     (let w1 = open_file e w in
      case file_h w1 of
        None \<Rightarrow> (AtLoopTop, w1, [Sleep])
      | Some h \<Rightarrow>
          if first_open w1 then
            (if fails e OpSeekEnd then on_error w1 []
             else set_position e
                    (w1\<lparr>file_h := Some (h\<lparr>h_pos := length (contents e (h_ino h))\<rparr>),
                        first_open := False\<rparr>))
          else if rotated then
            (if fails e OpSeekStart then on_error w1 []
             else set_position e (w1\<lparr>file_h := Some (h\<lparr>h_pos := 0\<rparr>)\<rparr>))
          else set_position e w1)"

text \<open>
  \<^verbatim>\<open>await self._wait_for_file()\<close>: while the path does not exist the coroutine sleeps
  inside it, and the next snapshot is looked at from there.
\<close>

definition wait_for_file :: "env \<Rightarrow> bool \<Rightarrow> watcher \<Rightarrow> outcome" where
  "wait_for_file e rotated w =
     (if path_ino e = None then (InWaitForFile rotated, w, [Sleep])
      else reopen_step e rotated w)"

definition watch_step :: "env \<Rightarrow> ctl \<Rightarrow> watcher \<Rightarrow> outcome" where
  "watch_step e pc w =
     (case pc of
        InWaitForFile rotated \<Rightarrow> wait_for_file e rotated w
      | AtLoopTop \<Rightarrow>
          if file_h w = None \<or> is_rotated e w then
            (if file_h w \<noteq> None then wait_for_file e True (close_file w)
             else wait_for_file e False w)
          else tail_step e w)"

text \<open>The watcher over a sequence of snapshots, one per cycle, with all its events.\<close>

fun run :: "env list \<Rightarrow> ctl \<Rightarrow> watcher \<Rightarrow> outcome" where
  "run [] pc w = (pc, w, [])"
| "run (e # es) pc w =
     (case watch_step e pc w of
        (pc1, w1, evs1) \<Rightarrow>
          (case run es pc1 w1 of (pc2, w2, evs2) \<Rightarrow> (pc2, w2, evs1 @ evs2)))"

text \<open>
  Snapshots for examples: one file behind the path, nothing failing, and \<^verbatim>\<open>tell\<close>
  returning the byte offset wherever it may.
\<close>

definition no_faults :: "op \<Rightarrow> bool" where
  "no_faults x = False"

definition env_at :: "nat \<Rightarrow> string \<Rightarrow> env" where
  "env_at i c =
     \<lparr>path_ino = Some i, contents = (\<lambda>j. if j = i then c else []), fails = no_faults,
      cookie_ahead = False, cookie = 0\<rparr>"

definition env_missing :: env where
  "env_missing =
     \<lparr>path_ino = None, contents = (\<lambda>j. []), fails = no_faults,
      cookie_ahead = False, cookie = 0\<rparr>"

text \<open>The same snapshot as \<open>env_at i c\<close>, with call \<open>x\<close> failing.\<close>

definition env_failing :: "op \<Rightarrow> nat \<Rightarrow> string \<Rightarrow> env" where
  "env_failing x i c = (env_at i c)\<lparr>fails := (\<lambda>y. y = x)\<rparr>"

section \<open>Notions used by the statements\<close>

text \<open>
  What the loop of the reverse line reader keeps while every chunk it has read held a
  separator: below \<open>pos\<close> nothing is read yet; \<open>buffer\<close> is the unfinished first
  fragment of what is read; \<open>lines\<close> are the non-blank lines after the first separator
  that follows it, if there is one. At \<open>pos = 0\<close> the lines are those of the whole file.
\<close>

definition scan_inv :: "string \<Rightarrow> string list \<Rightarrow> string \<Rightarrow> nat \<Rightarrow> bool" where
  "scan_inv content lines buffer pos =
     (pos \<le> length content \<and>
      (if pos = 0 then lines = filter nonblank (split_nl content)
       else (drop pos content = buffer \<and> lines = [])
          \<or> (\<exists>rest. drop pos content = buffer @ LF # rest
                    \<and> lines = filter nonblank (split_nl rest))))"

text \<open>A cycle in which no call fails.\<close>

definition quiet :: "env \<Rightarrow> bool" where
  "quiet e = (\<forall>x. \<not> fails e x)"

text \<open>
  A watcher that follows file \<open>i\<close> with its handle and its recorded offset at \<open>p\<close>, as
  it stands at the top of the loop after a published line or a seek.
\<close>

definition following_at :: "string \<Rightarrow> nat \<Rightarrow> nat \<Rightarrow> watcher" where
  "following_at lid i p =
     \<lparr>log_id = lid, file_h = Some \<lparr>h_ino = i, h_pos = p\<rparr>, inode = Some i,
      first_open = False, position = p\<rparr>"

text \<open>
  What holds of the watcher between any two cycles: an open handle is only held at the
  top of the loop, by a watcher that is past its first open, and the recorded inode is
  the one the handle was opened on.
\<close>

definition wf_state :: "ctl \<Rightarrow> watcher \<Rightarrow> bool" where
  "wf_state pc w =
     (case file_h w of
        None \<Rightarrow> True
      | Some h \<Rightarrow> pc = AtLoopTop \<and> \<not> first_open w \<and> inode w = Some (h_ino h))"

definition wf_out :: "outcome \<Rightarrow> bool" where
  "wf_out out = wf_state (fst out) (fst (snd out))"

text \<open>
  What every cycle keeps: the log id; a cleared \<open>first_open\<close> stays cleared; and a cycle
  that went through the handler of \<^verbatim>\<open>watch\<close> ends at the top of the loop with the
  handle closed.
\<close>

definition handled :: "watcher \<Rightarrow> outcome \<Rightarrow> bool" where
  "handled w out =
     (log_id (fst (snd out)) = log_id w
      \<and> (first_open (fst (snd out)) \<longrightarrow> first_open w)
      \<and> (WatchError \<in> set (snd (snd out)) \<longrightarrow>
            fst out = AtLoopTop \<and> file_h (fst (snd out)) = None))"


text \<open>
  Snapshots in which the path keeps leading to file \<open>i\<close>, nothing fails, and the file
  only grows: each content starts with the one before it, the first with \<open>c\<close>.
\<close>

fun appends_only :: "nat \<Rightarrow> string \<Rightarrow> env list \<Rightarrow> bool" where
  "appends_only i c [] = True"
| "appends_only i c (e # es) =
     (path_ino e = Some i \<and> quiet e \<and> take (length c) (contents e i) = c
      \<and> appends_only i (contents e i) es)"

text \<open>
  A line with something in it and no terminator inside, and the file made of such lines,
  each closed by \<open>LF\<close>.
\<close>

definition plain :: "string \<Rightarrow> bool" where
  "plain l = (l \<noteq> [] \<and> LF \<notin> set l \<and> CR \<notin> set l)"

definition join_lines :: "string list \<Rightarrow> string" where
  "join_lines ls = concat (map (\<lambda>l. l @ [LF]) ls)"

text \<open>
  The same world with the first \<open>k\<close> bytes of every file cut away, and the same watcher
  with its offsets counted from byte \<open>k\<close>.
\<close>

definition without_prefix :: "nat \<Rightarrow> env \<Rightarrow> env" where
  "without_prefix k e = e\<lparr>contents := (\<lambda>j. drop k (contents e j))\<rparr>"

definition rebase :: "nat \<Rightarrow> watcher \<Rightarrow> watcher" where
  "rebase k w =
     w\<lparr>file_h := map_option (\<lambda>h. h\<lparr>h_pos := h_pos h - k\<rparr>) (file_h w),
       position := position w - k\<rparr>"

text \<open>
  The order the specification asks of the attach handler, read on the effects of a call:
  the first thing that concerns channel \<open>c\<close> is the send of its historical message, and
  its entry into the live set comes after that.
\<close>

fun history_then_subscribe :: "'c \<Rightarrow> 'c effect list \<Rightarrow> bool" where
  "history_then_subscribe c [] = False"
| "history_then_subscribe c (Send d (Historical ls) # effs) =
     (if d = c then Subscribe c \<in> set effs else history_then_subscribe c effs)"
| "history_then_subscribe c (Subscribe d # effs) =
     (d \<noteq> c \<and> history_then_subscribe c effs)"
| "history_then_subscribe c (x # effs) = history_then_subscribe c effs"

section \<open>The reverse line reader on a line longer than a chunk\<close>

declare reverse_scan.simps [simp del]

lemma split_nl_not_Nil [simp]: "split_nl cs \<noteq> []"
  by (induction cs) (auto split: list.splits)

lemma split_nl_no_LF: "LF \<notin> set cs \<Longrightarrow> split_nl cs = [cs]"
  by (induction cs) auto

lemma reverse_scan_pass:
  "0 < chunk_size \<Longrightarrow> reverse_scan content chunk_size n lines buffer pos =
     (if length lines < n \<and> pos > 0 then
        (let read_size = min chunk_size pos;
             pos' = pos - read_size;
             buffer1 = take read_size (drop pos' content) @ buffer;
             split_lines = split_nl buffer1;
             (buffer', lines1) =
               (if pos' > 0 \<and> length split_lines > 1
                then (hd split_lines, tl split_lines @ lines)
                else ([], split_lines @ lines));
             lines' = filter nonblank lines1
         in if length lines' > n then slice_last n lines'
            else reverse_scan content chunk_size n lines' buffer' pos')
      else (if lines = [] then [] else slice_last n lines))"
proof (cases "length lines < n \<and> pos > 0")
  case True
  assume "0 < chunk_size"
  with True have "pos - min chunk_size pos < pos" by arith
  with True show ?thesis
    by (subst reverse_scan.simps) (simp only: Let_def if_True)
next
  case False
  then show ?thesis
    by (subst reverse_scan.simps) (simp only: if_False)
qed

lemma nonblank_replicate_a: "0 < k \<Longrightarrow> nonblank (replicate k CHR ''a'')"
  by (auto simp: nonblank_def is_space_def)

text \<open>
  Claim C1. \<^verbatim>\<open>get_last_lines(path, N)\<close> is to return the true final \<open>N\<close> non-blank lines
  wherever the chunk boundaries fall, also when a line is longer than a chunk. On a file
  that is one line of 8193 letters, with \<open>N = 1\<close>, the first chunk holds the last 8192
  letters and no separator; the program takes the chunk for a finished line and returns
  it, while the last non-blank line of the file is the whole line of 8193 letters.
\<close>

theorem get_last_lines_cuts_long_line:
  "get_last_lines (Some (replicate 8193 CHR ''a'')) 1 = [replicate 8192 CHR ''a'']
   \<and> spec_last_lines (replicate 8193 CHR ''a'') 1 = [replicate 8193 CHR ''a'']"
proof
  show "get_last_lines (Some (replicate 8193 CHR ''a'')) 1 = [replicate 8192 CHR ''a'']"
    apply (simp add: get_last_lines_def)
    apply (subst reverse_scan_pass, simp)
    apply (simp add: split_nl_no_LF nonblank_replicate_a Let_def)
    apply (subst reverse_scan_pass, simp)
    apply (simp add: slice_last_def)
    done
  show "spec_last_lines (replicate 8193 CHR ''a'') 1 = [replicate 8193 CHR ''a'']"
    by (simp add: spec_last_lines_def split_nl_no_LF nonblank_replicate_a slice_last_def)
qed

section \<open>The reverse line reader when every chunk holds a separator\<close>

text \<open>
  The loop goes wrong only in the case above. When every chunk of 8192 bytes that does
  not start at the beginning of the file holds a line feed, as it does when no line is
  that long, and always for a file of at most 8192 bytes, \<^verbatim>\<open>get_last_lines\<close> returns the
  last \<open>n\<close> non-blank lines of the file.
\<close>

lemma split_nl_append_LF: "split_nl (a @ LF # b) = split_nl a @ split_nl b"
proof (induction a)
  case Nil
  then show ?case by simp
next
  case (Cons c a)
  obtain l ls where "split_nl a = l # ls"
    by (cases "split_nl a") auto
  with Cons show ?case by simp
qed

lemma split_nl_with_LF:
  assumes "LF \<in> set text"
  obtains l0 text' where "text = l0 @ LF # text'" "split_nl text = l0 # split_nl text'"
proof -
  from split_list_first[OF assms] obtain l0 text' where t: "text = l0 @ LF # text'" "LF \<notin> set l0"
    by blast
  then have "split_nl text = l0 # split_nl text'"
    by (simp add: split_nl_append_LF split_nl_no_LF)
  with t that show ?thesis by blast
qed

lemma slice_last_append:
  "0 < n \<Longrightarrow> n \<le> length ys \<Longrightarrow> slice_last n (xs @ ys) = slice_last n ys"
  by (simp add: slice_last_def)

lemma lines_after_LF:
  assumes "pos \<le> length content" and "drop pos content = buffer @ LF # rest"
    and "lines = filter nonblank (split_nl rest)" and "0 < n" and "n \<le> length lines"
  shows "slice_last n lines = spec_last_lines content n"
proof -
  have "content = (take pos content @ buffer) @ LF # rest"
    using assms(2) by (metis append_take_drop_id append.assoc)
  then have "split_nl content = split_nl (take pos content @ buffer) @ split_nl rest"
    by (metis split_nl_append_LF)
  then show ?thesis
    using assms(3-5) by (simp add: spec_last_lines_def slice_last_append)
qed


lemma take_drop_chunk: "take k (drop p xs) @ drop (p + k) xs = drop p xs"
  by (metis append_take_drop_id drop_drop add.commute)

lemma filter_split_nl_append_LF:
  "filter nonblank (split_nl (a @ LF # b)) =
     filter nonblank (split_nl a @ filter nonblank (split_nl b))"
  by (simp add: split_nl_append_LF)

lemma reverse_scan_last_pass:
  assumes "0 < cs" and "length lines < n" and "0 < pos" and "pos \<le> cs"
  shows "reverse_scan content cs n lines buffer pos =
     (let lines' = filter nonblank (split_nl (take pos content @ buffer) @ lines)
      in if length lines' > n then slice_last n lines'
         else reverse_scan content cs n lines' [] 0)"
  using assms by (subst reverse_scan_pass) (simp_all add: Let_def min_absorb2)

lemma reverse_scan_inner_pass:
  assumes "0 < cs" and "length lines < n" and "cs < pos"
    and "split_nl (take cs (drop (pos - cs) content) @ buffer) = l0 # ls" and "ls \<noteq> []"
  shows "reverse_scan content cs n lines buffer pos =
     (let lines' = filter nonblank (ls @ lines)
      in if length lines' > n then slice_last n lines'
         else reverse_scan content cs n lines' l0 (pos - cs))"
  using assms by (subst reverse_scan_pass) (simp_all add: Let_def min_absorb1)

lemma reverse_scan_correct:
  assumes cs: "0 < cs" and n: "0 < n"
    and W: "\<forall>p>0. p + cs \<le> length content \<longrightarrow> LF \<in> set (take cs (drop p content))"
    and inv: "scan_inv content lines buffer pos"
  shows "reverse_scan content cs n lines buffer pos = spec_last_lines content n"
  using inv
proof (induction pos arbitrary: lines buffer rule: less_induct)
  case (less pos)
  from less.prems have pos_le: "pos \<le> length content" by (simp add: scan_inv_def)
  show ?case
  proof (cases "length lines < n \<and> pos > 0")
    case False
    then have stop: "reverse_scan content cs n lines buffer pos =
        (if lines = [] then [] else slice_last n lines)"
      by (subst reverse_scan_pass[OF cs]) (simp only: if_False)
    show ?thesis
    proof (cases "pos = 0")
      case True
      with less.prems have "lines = filter nonblank (split_nl content)"
        by (simp add: scan_inv_def)
      then show ?thesis unfolding stop
        by (simp add: spec_last_lines_def slice_last_def)
    next
      case pos: False
      with False have len: "n \<le> length lines" by simp
      with n have ne: "lines \<noteq> []" by auto
      with less.prems pos obtain rest where
        r: "drop pos content = buffer @ LF # rest" "lines = filter nonblank (split_nl rest)"
        by (auto simp: scan_inv_def)
      from lines_after_LF[OF pos_le r n len] ne show ?thesis unfolding stop by simp
    qed
  next
    case True
    then have l: "length lines < n" and p: "0 < pos" by simp_all
    from less.prems p
    have shape: "(drop pos content = buffer \<and> lines = [])
          \<or> (\<exists>rest. drop pos content = buffer @ LF # rest
                    \<and> lines = filter nonblank (split_nl rest))"
      by (simp add: scan_inv_def)
    show ?thesis
    proof (cases "pos \<le> cs")
      case at_start: True
      let ?d = "take pos content @ buffer"
      let ?lines' = "filter nonblank (split_nl ?d @ lines)"
      have all: "?lines' = filter nonblank (split_nl content)"
        using shape
      proof
        assume a: "drop pos content = buffer \<and> lines = []"
        then have "content = ?d" by (metis append_take_drop_id)
        with a show ?thesis by simp
      next
        assume "\<exists>rest. drop pos content = buffer @ LF # rest
                    \<and> lines = filter nonblank (split_nl rest)"
        then obtain rest where r: "drop pos content = buffer @ LF # rest"
          "lines = filter nonblank (split_nl rest)" by blast
        then have "content = ?d @ LF # rest"
          by (metis append_take_drop_id append.assoc)
        then have "filter nonblank (split_nl content) =
            filter nonblank (split_nl ?d @ filter nonblank (split_nl rest))"
          by (metis filter_split_nl_append_LF)
        with r(2) show ?thesis by simp
      qed
      have "scan_inv content ?lines' [] 0" using all by (simp add: scan_inv_def)
      from less.IH[OF p this]
      have "reverse_scan content cs n ?lines' [] 0 = spec_last_lines content n" .
      moreover have "slice_last n ?lines' = spec_last_lines content n"
        using all by (simp add: spec_last_lines_def)
      ultimately show ?thesis
        unfolding reverse_scan_last_pass[OF cs l p at_start] Let_def by simp
    next
      case False
      then have inner: "cs < pos" by simp
      let ?p = "pos - cs"
      let ?d = "take cs (drop ?p content) @ buffer"
      have p': "0 < ?p" "?p + cs \<le> length content" "?p < pos" "?p \<le> length content"
        using inner pos_le cs by simp_all
      with W have "LF \<in> set (take cs (drop ?p content))" by blast
      then have "LF \<in> set ?d" by simp
      then obtain l0 d' where t: "?d = l0 @ LF # d'" "split_nl ?d = l0 # split_nl d'"
        by (rule split_nl_with_LF)
      let ?lines' = "filter nonblank (split_nl d' @ lines)"
      have chunk: "take cs (drop ?p content) @ drop pos content = drop ?p content"
        using take_drop_chunk[of cs ?p content] inner by simp
      have B: "\<exists>rest. drop ?p content = l0 @ LF # rest
                 \<and> ?lines' = filter nonblank (split_nl rest)"
        using shape
      proof
        assume a: "drop pos content = buffer \<and> lines = []"
        with chunk have "drop ?p content = ?d" by simp
        with t(1) have "drop ?p content = l0 @ LF # d'" by (simp only:)
        moreover have "?lines' = filter nonblank (split_nl d')" using a by simp
        ultimately show ?thesis by blast
      next
        assume "\<exists>rest. drop pos content = buffer @ LF # rest
                    \<and> lines = filter nonblank (split_nl rest)"
        then obtain rest where r: "drop pos content = buffer @ LF # rest"
          "lines = filter nonblank (split_nl rest)" by blast
        with chunk have "drop ?p content = ?d @ LF # rest" by simp
        then have "drop ?p content = l0 @ LF # (d' @ LF # rest)" by (simp add: t(1))
        moreover have "?lines' = filter nonblank (split_nl (d' @ LF # rest))"
          unfolding r(2) by (rule filter_split_nl_append_LF[symmetric])
        ultimately show ?thesis by blast
      qed
      have step: "reverse_scan content cs n lines buffer pos =
          (if length ?lines' > n then slice_last n ?lines'
           else reverse_scan content cs n ?lines' l0 ?p)"
        using reverse_scan_inner_pass[OF cs l inner t(2) split_nl_not_Nil]
        by (simp only: Let_def)
      show ?thesis
      proof (cases "length ?lines' > n")
        case True
        from B obtain rest where "drop ?p content = l0 @ LF # rest"
          "?lines' = filter nonblank (split_nl rest)" by blast
        from lines_after_LF[OF p'(4) this n] True show ?thesis unfolding step by simp
      next
        case False
        have "scan_inv content ?lines' l0 ?p"
          using B p' unfolding scan_inv_def by simp
        from less.IH[OF p'(3) this] False show ?thesis unfolding step by simp
      qed
    qed
  qed
qed

lemma get_last_lines_correct:
  assumes "0 < n"
    and "\<forall>p>0. p + 8192 \<le> length content \<longrightarrow> LF \<in> set (take 8192 (drop p content))"
  shows "get_last_lines (Some content) n = spec_last_lines content n"
proof (cases "content = []")
  case True
  have "get_last_lines (Some []) n = []"
    by (simp add: get_last_lines_def)
  moreover have "spec_last_lines [] n = []"
    by (simp add: spec_last_lines_def slice_last_def nonblank_def)
  ultimately show ?thesis using True by simp
next
  case False
  let ?cs = "min 8192 (length content)"
  have W: "\<forall>p>0. p + ?cs \<le> length content \<longrightarrow> LF \<in> set (take ?cs (drop p content))"
    using assms(2) by (cases "8192 \<le> length content") (auto simp: min_def)
  have "scan_inv content [] [] (length content)"
    using False by (simp add: scan_inv_def)
  from reverse_scan_correct[OF _ assms(1) W this] False show ?thesis
    by (simp add: get_last_lines_def Let_def)
qed

section \<open>Best-effort delivery\<close>











section \<open>Facts about one cycle\<close>

lemma quietD [simp]: "quiet e \<Longrightarrow> fails e x = False"
  by (simp add: quiet_def)

lemma quiet_env_at [simp]: "quiet (env_at i c)"
  by (simp add: quiet_def env_at_def no_faults_def)

lemma env_at_sel [simp]:
  "path_ino (env_at i c) = Some i" "contents (env_at i c) i = c" "fails (env_at i c) x = False"
  by (simp_all add: env_at_def no_faults_def)

subsection \<open>The invariant\<close>

lemma wf_out_on_error [simp]: "wf_out (on_error w evs)"
  by (simp add: wf_out_def on_error_def close_file_def wf_state_def)

lemma wf_out_read_step: "wf_state AtLoopTop w \<Longrightarrow> wf_out (read_step e w)"
  by (cases "file_h w")
     (auto simp: read_step_def Let_def case_prod_beta wf_out_def wf_state_def
        on_error_def close_file_def)

lemma wf_out_tail_step: "wf_state AtLoopTop w \<Longrightarrow> wf_out (tail_step e w)"
  by (cases "file_h w"; cases "path_ino e")
     (auto simp: tail_step_def Let_def wf_state_def intro!: wf_out_read_step)

lemma wf_out_set_position: "wf_state AtLoopTop w \<Longrightarrow> wf_out (set_position e w)"
  by (cases "file_h w")
     (auto simp: set_position_def wf_state_def intro!: wf_out_tail_step)

lemma wf_out_reopen_step: "wf_out (reopen_step e r w)"
  by (cases "path_ino e")
     (auto simp: reopen_step_def open_file_def Let_def wf_state_def wf_out_def[of "(a, b, c)" for a b c]
        intro!: wf_out_set_position)

lemma wf_out_wait_for_file: "file_h w = None \<Longrightarrow> wf_out (wait_for_file e r w)"
  by (auto simp: wait_for_file_def wf_out_reopen_step wf_out_def[of "(a, b, c)" for a b c] wf_state_def)

lemma wf_out_watch_step: "wf_state pc w \<Longrightarrow> wf_out (watch_step e pc w)"
  by (cases pc; cases "file_h w")
     (auto simp: watch_step_def wf_state_def close_file_def
        intro!: wf_out_wait_for_file wf_out_tail_step)

lemma wf_out_run: "wf_state pc w \<Longrightarrow> wf_out (run es pc w)"
proof (induction es arbitrary: pc w)
  case Nil
  then show ?case by (simp add: wf_out_def)
next
  case (Cons e es)
  obtain pc1 w1 evs1 where s: "watch_step e pc w = (pc1, w1, evs1)"
    by (cases "watch_step e pc w") auto
  with wf_out_watch_step[OF Cons.prems, of e] have "wf_state pc1 w1"
    by (simp add: wf_out_def)
  from Cons.IH[OF this] s show ?case
    by (simp add: wf_out_def case_prod_beta)
qed

lemma reachable_wf: "run es AtLoopTop (new_watcher lid) = (pc, w, evs) \<Longrightarrow> wf_state pc w"
  using wf_out_run[of AtLoopTop "new_watcher lid" es]
  by (simp add: wf_out_def wf_state_def new_watcher_def)

subsection \<open>Reading\<close>


lemma readline_unterminated:
  "LF \<notin> set l \<Longrightarrow> CR \<notin> set l \<Longrightarrow> readline l = (l, length l)"
  by (induction l) auto

lemma readline_plain:
  "LF \<notin> set l \<Longrightarrow> CR \<notin> set l \<Longrightarrow> readline (l @ LF # rest) = (l @ [LF], Suc (length l))"
  by (induction l) auto

lemma rstrip_crlf_plain: "LF \<notin> set l \<Longrightarrow> CR \<notin> set l \<Longrightarrow> rstrip_crlf l = l"
  by (cases l rule: rev_cases) (auto simp: rstrip_crlf_def)

lemma rstrip_crlf_snoc_LF [simp]: "rstrip_crlf (l @ [LF]) = rstrip_crlf l"
  by (simp add: rstrip_crlf_def)

lemma tell_plain:
  assumes "CR \<notin> set (drop (h_pos h) (contents e (h_ino h)))"
  shows "tell e h k = h_pos h + k"
proof -
  let ?ahead = "drop (h_pos h) (contents e (h_ino h))"
  have "last (take k ?ahead) \<noteq> CR" if "take k ?ahead \<noteq> []"
  proof -
    from that have "last (take k ?ahead) \<in> set (take k ?ahead)" by (rule last_in_set)
    then have "last (take k ?ahead) \<in> set ?ahead" by (rule in_set_takeD)
    with assms show ?thesis by metis
  qed
  with assms show ?thesis by (auto simp: tell_def Let_def)
qed


lemma read_step_eq:
  assumes "file_h w = Some h" "\<not> fails e OpReadline" "\<not> fails e OpBroadcast"
    "\<not> fails e OpTellRead"
  shows "read_step e w =
     (case readline (drop (h_pos h) (contents e (h_ino h))) of (line, k) \<Rightarrow>
        (AtLoopTop,
         w\<lparr>file_h := Some (h\<lparr>h_pos := h_pos h + k\<rparr>),
           position := (if rstrip_crlf line = [] then position w else tell e h k)\<rparr>,
         if line = [] then [Sleep]
         else if rstrip_crlf line = [] then []
         else [Broadcast (log_id w) (rstrip_crlf line)]))"
  using assms by (auto simp: read_step_def Let_def rstrip_crlf_def split: prod.splits)

subsection \<open>Quiet cycles\<close>

lemma following_step:
  assumes "file_h w = Some h" "inode w = Some j" "path_ino e = Some j" "quiet e"
  shows "watch_step e AtLoopTop w = tail_step e w"
  using assms by (simp add: watch_step_def is_rotated_def)

lemma tail_step_quiet:
  assumes "file_h w = Some h" "path_ino e = Some j" "quiet e"
  shows "tail_step e w =
     (if length (contents e j) < position w
      then read_step e (w\<lparr>file_h := Some (h\<lparr>h_pos := 0\<rparr>), position := 0\<rparr>)
      else if position w < length (contents e j)
      then read_step e (w\<lparr>file_h := Some (h\<lparr>h_pos := position w\<rparr>)\<rparr>)
      else read_step e w)"
  using assms by (simp add: tail_step_def Let_def)

lemma reopen_quiet:
  assumes "file_h w = None" "\<not> first_open w" "path_ino e = Some i" "quiet e" "pc = AtLoopTop \<or> pc = InWaitForFile r"
  shows "watch_step e pc w =
         read_step e (w\<lparr>file_h := Some \<lparr>h_ino = i, h_pos = 0\<rparr>, inode := Some i, position := 0\<rparr>)"
  using assms
  by (cases w)
     (auto simp: watch_step_def wait_for_file_def reopen_step_def open_file_def set_position_def
      tail_step_def Let_def)

section \<open>Facts about many cycles\<close>

subsection \<open>A blank line\<close>

lemma rstrip_crlf_Cons_plain:
  "c \<noteq> LF \<Longrightarrow> c \<noteq> CR \<Longrightarrow> rstrip_crlf (c # l) \<noteq> []"
  by (simp add: rstrip_crlf_def dropWhile_append)

lemma blank_line_iff:
  "fst (readline cs) \<noteq> [] \<and> rstrip_crlf (fst (readline cs)) = []
     \<longleftrightarrow> cs \<noteq> [] \<and> (hd cs = LF \<or> hd cs = CR)"
  by (cases cs) (auto simp: case_prod_beta rstrip_crlf_Cons_plain rstrip_crlf_def split: list.splits)

lemma blank_line_extends:
  assumes "fst (readline (drop p c)) \<noteq> []" "rstrip_crlf (fst (readline (drop p c))) = []"
    "take (length c) c' = c"
  shows "fst (readline (drop p c')) \<noteq> [] \<and> rstrip_crlf (fst (readline (drop p c'))) = []"
proof -
  from assms(1,2) have d: "drop p c \<noteq> []" "hd (drop p c) = LF \<or> hd (drop p c) = CR"
    using blank_line_iff[of "drop p c"] by auto
  then have p: "p < length c" by simp
  from assms(3) have "c' = c @ drop (length c) c'"
    by (metis append_take_drop_id)
  then have "drop p c' = drop p c @ drop (length c) c'"
    using p by (metis drop_append less_imp_le_nat diff_is_0_eq drop0)
  with d have "drop p c' \<noteq> []" "hd (drop p c') = LF \<or> hd (drop p c') = CR"
    by auto
  then show ?thesis using blank_line_iff[of "drop p c'"] by auto
qed

lemma blank_line_stuck:
  assumes "file_h w = Some h" "inode w = Some (h_ino h)"
    "fst (readline (drop (position w) c)) \<noteq> []"
    "rstrip_crlf (fst (readline (drop (position w) c))) = []"
    "appends_only (h_ino h) c es"
  shows "\<exists>k. run es AtLoopTop w = (AtLoopTop, w\<lparr>file_h := Some (h\<lparr>h_pos := k\<rparr>)\<rparr>, [])"
  using assms
proof (induction es arbitrary: w h c)
  case Nil
  then show ?case by (auto intro!: exI[of _ "h_pos h"])
next
  case (Cons e es)
  let ?C = "contents e (h_ino h)"
  from Cons.prems have e: "path_ino e = Some (h_ino h)" "quiet e" "take (length c) ?C = c"
    and rest: "appends_only (h_ino h) ?C es" by simp_all
  have b: "fst (readline (drop (position w) ?C)) \<noteq> []"
          "rstrip_crlf (fst (readline (drop (position w) ?C))) = []"
    using blank_line_extends[OF Cons.prems(3,4) e(3)] by simp_all
  then have "drop (position w) ?C \<noteq> []" using blank_line_iff[of "drop (position w) ?C"] by auto
  then have lt: "position w < length ?C" by simp
  define k where "k = position w + snd (readline (drop (position w) ?C))"
  define w1 where "w1 = w\<lparr>file_h := Some (h\<lparr>h_pos := k\<rparr>)\<rparr>"
  have step: "watch_step e AtLoopTop w = (AtLoopTop, w1, [])"
    using Cons.prems(1,2) e lt b
    by (simp add: following_step[where h=h] tail_step_quiet[where h=h] read_step_eq
        case_prod_beta w1_def k_def)
  have "\<exists>k'. run es AtLoopTop w1 = (AtLoopTop, w1\<lparr>file_h := Some ((h\<lparr>h_pos := k\<rparr>)\<lparr>h_pos := k'\<rparr>)\<rparr>, [])"
    by (rule Cons.IH[where c = ?C]) (use Cons.prems(2) b rest in \<open>simp_all add: w1_def\<close>)
  then obtain k' where "run es AtLoopTop w1 = (AtLoopTop, w\<lparr>file_h := Some (h\<lparr>h_pos := k'\<rparr>)\<rparr>, [])"
    by (auto simp: w1_def)
  with step show ?case by auto
qed

subsection \<open>A file of plain lines\<close>

lemma run_replicate_Suc:
  "run (replicate (Suc n) e) pc w =
     (case watch_step e pc w of (pc1, w1, evs1) \<Rightarrow>
        (case run (replicate n e) pc1 w1 of (pc2, w2, evs2) \<Rightarrow> (pc2, w2, evs1 @ evs2)))"
  by simp

lemma join_lines_Cons [simp]: "join_lines (l # ls) = l @ LF # join_lines ls"
  by (simp add: join_lines_def)

lemma join_lines_Nil [simp]: "join_lines [] = []"
  by (simp add: join_lines_def)

lemma CR_join_lines: "\<forall>l \<in> set ls. plain l \<Longrightarrow> CR \<notin> set (join_lines ls)"
  by (induction ls) (auto simp: plain_def)

lemma lines_published:
  assumes "file_h w = Some h" "inode w = Some (h_ino h)" "path_ino e = Some (h_ino h)" "quiet e"
    "contents e (h_ino h) = pre @ join_lines ls @ rest" "position w = length pre"
    "\<forall>l \<in> set ls. plain l" "CR \<notin> set rest"
  shows "run (replicate (length ls) e) AtLoopTop w =
           (AtLoopTop,
            w\<lparr>file_h := Some (h\<lparr>h_pos := (if ls = [] then h_pos h
                                            else length pre + length (join_lines ls))\<rparr>),
              position := length pre + length (join_lines ls)\<rparr>,
            map (Broadcast (log_id w)) ls)"
  using assms
proof (induction ls arbitrary: w h pre)
  case Nil
  then show ?case by (cases w) simp
next
  case (Cons l ls)
  let ?C = "contents e (h_ino h)"
  let ?p = "length pre + Suc (length l)"
  from Cons.prems have l: "l \<noteq> []" "LF \<notin> set l" "CR \<notin> set l" by (simp_all add: plain_def)
  have C: "?C = (pre @ l @ [LF]) @ join_lines ls @ rest"
    using Cons.prems(5) by simp
  have d: "drop (position w) ?C = l @ LF # join_lines ls @ rest"
    using Cons.prems(5,6) by simp
  have "CR \<notin> set (join_lines ls)"
    using Cons.prems(7) by (simp add: CR_join_lines)
  with l(3) Cons.prems(8) have "CR \<notin> set (drop (position w) ?C)"
    unfolding d by simp
  then have t: "tell e (h\<lparr>h_pos := length pre\<rparr>) n = length pre + n" for n
    using tell_plain[of "h\<lparr>h_pos := position w\<rparr>" e n] Cons.prems(6) by simp
  define w1 where "w1 = w\<lparr>file_h := Some (h\<lparr>h_pos := ?p\<rparr>), position := ?p\<rparr>"
  have lt: "position w < length ?C"
    using Cons.prems(5,6) l(1) by simp
  have step: "watch_step e AtLoopTop w = (AtLoopTop, w1, [Broadcast (log_id w) l])"
    using Cons.prems(1-4,6) l d lt
    by (simp add: following_step[where h=h] tail_step_quiet[where h=h] read_step_eq
        readline_plain rstrip_crlf_plain w1_def t)
  have rest: "run (replicate (length ls) e) AtLoopTop w1 =
     (AtLoopTop,
      w1\<lparr>file_h := Some ((h\<lparr>h_pos := ?p\<rparr>)\<lparr>h_pos :=
                 (if ls = [] then h_pos (h\<lparr>h_pos := ?p\<rparr>)
                  else length (pre @ l @ [LF]) + length (join_lines ls))\<rparr>),
         position := length (pre @ l @ [LF]) + length (join_lines ls)\<rparr>,
      map (Broadcast (log_id w1)) ls)"
    by (rule Cons.IH[where pre = "pre @ l @ [LF]"])
       (use Cons.prems C in \<open>simp_all add: w1_def\<close>)
  have "run (replicate (length ls) e) AtLoopTop w1 =
     (AtLoopTop,
      w\<lparr>file_h := Some (h\<lparr>h_pos := length pre + length (join_lines (l # ls))\<rparr>),
        position := length pre + length (join_lines (l # ls))\<rparr>,
      map (Broadcast (log_id w)) ls)"
    unfolding rest by (cases w) (simp add: w1_def)
  with step show ?case by simp
qed

subsection \<open>Nothing more to read\<close>

lemma idle_step:
  assumes "file_h w = Some h" "inode w = Some (h_ino h)" "path_ino e = Some (h_ino h)" "quiet e"
    "position w = length (contents e (h_ino h))" "length (contents e (h_ino h)) \<le> h_pos h"
  shows "watch_step e AtLoopTop w = (AtLoopTop, w, [Sleep])"
  using assms
  by (cases w)
     (simp add: following_step[where h=h] tail_step_quiet[where h=h] read_step_eq
        rstrip_crlf_def)

lemma idle_run:
  assumes "file_h w = Some h" "inode w = Some (h_ino h)" "path_ino e = Some (h_ino h)" "quiet e"
    "position w = length (contents e (h_ino h))" "length (contents e (h_ino h)) \<le> h_pos h"
  shows "run (replicate m e) AtLoopTop w = (AtLoopTop, w, replicate m Sleep)"
  by (induction m) (simp_all add: idle_step[OF assms])

lemma run_append:
  "run (es @ es') pc w =
     (case run es pc w of (pc1, w1, evs1) \<Rightarrow>
        (case run es' pc1 w1 of (pc2, w2, evs2) \<Rightarrow> (pc2, w2, evs1 @ evs2)))"
  by (induction es arbitrary: pc w) (simp_all add: case_prod_beta)

lemma appends_only_replicate:
  "path_ino e = Some i \<Longrightarrow> quiet e \<Longrightarrow> contents e i = c \<Longrightarrow> appends_only i c (replicate m e)"
  by (induction m) simp_all

lemma lines_then_nothing:
  assumes "file_h w = Some h" "inode w = Some (h_ino h)" "path_ino e = Some (h_ino h)" "quiet e"
    "contents e (h_ino h) = pre @ join_lines ls @ rest" "position w = length pre"
    "h_pos h = length pre" "\<forall>l \<in> set ls. plain l" "CR \<notin> set rest"
    "rest = [] \<or> hd rest = LF"
  shows "snd (snd (run (replicate (length ls + m) e) AtLoopTop w)) =
           map (Broadcast (log_id w)) ls @ (if rest = [] then replicate m Sleep else [])"
proof -
  let ?C = "contents e (h_ino h)"
  let ?p = "length pre + length (join_lines ls)"
  let ?h1 = "h\<lparr>h_pos := (if ls = [] then h_pos h else ?p)\<rparr>"
  let ?w1 = "w\<lparr>file_h := Some ?h1, position := ?p\<rparr>"
  have first: "run (replicate (length ls) e) AtLoopTop w =
      (AtLoopTop, ?w1, map (Broadcast (log_id w)) ls)"
    by (rule lines_published[OF assms(1-6,8,9)])
  have after: "snd (snd (run (replicate m e) AtLoopTop ?w1)) =
      (if rest = [] then replicate m Sleep else [])"
  proof (cases "rest = []")
    case True
    have "run (replicate m e) AtLoopTop ?w1 = (AtLoopTop, ?w1, replicate m Sleep)"
      by (rule idle_run[where h = ?h1]) (use assms(1-7) True in auto)
    with True show ?thesis by simp
  next
    case False
    with assms(10) obtain rest' where r: "rest = LF # rest'" by (cases rest) auto
    have d: "drop ?p ?C = LF # rest'"
      using assms(5) r by simp
    have "\<exists>k. run (replicate m e) AtLoopTop ?w1 =
        (AtLoopTop, ?w1\<lparr>file_h := Some (?h1\<lparr>h_pos := k\<rparr>)\<rparr>, [])"
      by (rule blank_line_stuck[where c = ?C])
         (use assms(2-4) d in \<open>simp_all add: appends_only_replicate rstrip_crlf_def\<close>)
    with False show ?thesis by auto
  qed
  show ?thesis
    unfolding replicate_add run_append first using after by (simp add: case_prod_beta)
qed

subsection \<open>Forgetting what was there before\<close>

lemma quiet_without_prefix [simp]: "quiet (without_prefix k e) = quiet e"
  by (simp add: quiet_def without_prefix_def)

lemma path_ino_without_prefix [simp]: "path_ino (without_prefix k e) = path_ino e"
  by (simp add: without_prefix_def)

lemma contents_without_prefix [simp]: "contents (without_prefix k e) j = drop k (contents e j)"
  by (simp add: without_prefix_def)


lemma rstrip_crlf_Nil [simp]: "rstrip_crlf [] = []"
  by (simp add: rstrip_crlf_def)





subsection \<open>After the handler\<close>

lemma handled_on_error [simp]: "handled w (on_error w' evs) = (log_id w' = log_id w \<and> (first_open w' \<longrightarrow> first_open w))"
  by (simp add: handled_def on_error_def close_file_def)

lemma handled_read_step: "handled w (read_step e w)"
  by (cases "file_h w")
     (auto simp: read_step_def Let_def case_prod_beta handled_def on_error_def close_file_def)

lemma handled_trans:
  "handled w' out \<Longrightarrow> log_id w' = log_id w \<Longrightarrow> (first_open w' \<longrightarrow> first_open w) \<Longrightarrow> handled w out"
  by (auto simp: handled_def)

lemma handled_tail_step: "handled w (tail_step e w)"
  by (cases "file_h w"; cases "path_ino e")
     (auto simp: tail_step_def Let_def intro: handled_trans[OF handled_read_step])

lemma handled_set_position: "handled w (set_position e w)"
  by (cases "file_h w")
     (auto simp: set_position_def intro: handled_trans[OF handled_tail_step])

lemma handled_reopen_step: "handled w (reopen_step e r w)"
  by (cases "path_ino e")
     (auto simp: reopen_step_def open_file_def Let_def handled_def[of _ "(a, b, c)" for a b c]
        intro: handled_trans[OF handled_set_position])

lemma handled_wait_for_file: "handled w (wait_for_file e r w)"
  by (auto simp: wait_for_file_def handled_reopen_step handled_def[of _ "(a, b, c)" for a b c])

lemma handled_watch_step: "handled w (watch_step e pc w)"
  by (cases pc)
     (auto simp: watch_step_def close_file_def handled_tail_step handled_wait_for_file
        intro: handled_trans[OF handled_wait_for_file])



section \<open>The claims about the watcher\<close>

lemmas cycle_defs =
  watch_step_def wait_for_file_def reopen_step_def open_file_def set_position_def
  tail_step_def read_step_def on_error_def close_file_def is_rotated_def Let_def
  new_watcher_def env_at_def env_missing_def no_faults_def rstrip_crlf_def following_at_def
  tell_def

text \<open>
  Claim C2 says that a cycle never publishes data at the end of the file that has no
  terminator yet, so that no line is delivered in two messages. The program has nothing
  that holds such data back: \<^verbatim>\<open>readline\<close> returns it and it is published. Here the
  file is empty at the first open, then holds \<open>abc\<close>, then \<open>abcdef\<close> and a newline: the
  one line \<open>abcdef\<close> is delivered as \<open>abc\<close> and \<open>def\<close>.
\<close>

theorem watcher_publishes_unterminated_fragment:
  "run [env_at 1 [], env_at 1 ''abc'', env_at 1 ''abcdef\<newline>''] AtLoopTop (new_watcher ''app'') =
     (AtLoopTop, following_at ''app'' 1 7,
      [Sleep, Broadcast ''app'' ''abc'', Broadcast ''app'' ''def''])"
  by (simp add: cycle_defs)

text \<open>
  Claim C2, amended. In a quiet cycle of a watcher that follows the file at the path,
  when the bytes from the recorded offset to the end of the file are not empty and hold no
  terminator, the cycle publishes exactly these bytes as a line and moves the handle and
  the recorded offset to the end of the file.
\<close>

theorem unterminated_fragment_published:
  assumes "file_h w = Some h" and "inode w = Some (h_ino h)"
    and "path_ino e = Some (h_ino h)" and "quiet e"
    and "position w < length (contents e (h_ino h))"
    and "LF \<notin> set (drop (position w) (contents e (h_ino h)))"
    and "CR \<notin> set (drop (position w) (contents e (h_ino h)))"
  shows "watch_step e AtLoopTop w =
     (AtLoopTop,
      w\<lparr>file_h := Some (h\<lparr>h_pos := length (contents e (h_ino h))\<rparr>),
        position := length (contents e (h_ino h))\<rparr>,
      [Broadcast (log_id w) (drop (position w) (contents e (h_ino h)))])"
  using assms tell_plain[of "h\<lparr>h_pos := position w\<rparr>" e]
  by (simp add: following_step[where h=h] tail_step_quiet[where h=h] read_step_eq
      readline_unterminated rstrip_crlf_plain)

theorem unterminated_fragment_published_witness:
  "file_h (following_at ''app'' 1 4) = Some \<lparr>h_ino = 1, h_pos = 4\<rparr>
   \<and> inode (following_at ''app'' 1 4) = Some 1
   \<and> path_ino (env_at 1 ''one\<newline>two'') = Some 1
   \<and> quiet (env_at 1 ''one\<newline>two'')
   \<and> position (following_at ''app'' 1 4) < length (contents (env_at 1 ''one\<newline>two'') 1)
   \<and> LF \<notin> set (drop 4 ''one\<newline>two'') \<and> CR \<notin> set (drop 4 ''one\<newline>two'')
   \<and> watch_step (env_at 1 ''one\<newline>two'') AtLoopTop (following_at ''app'' 1 4) =
       (AtLoopTop, following_at ''app'' 1 7, [Broadcast ''app'' ''two''])"
  using unterminated_fragment_published
    [of "following_at ''app'' 1 4" "\<lparr>h_ino = 1, h_pos = 4\<rparr>" "env_at 1 ''one\<newline>two''"]
  by (simp add: following_at_def)


text \<open>
  Claim C5. A watcher follows the file at the path, the path still leads to that file, and
  the file is now shorter than the recorded offset. Then the cycle puts the offset and the
  handle to 0 and reads from there: it is the read step from that state, and what it
  publishes is the first line of the file, read from byte 0.
\<close>

theorem truncation_resets_offset:
  assumes "file_h w = Some h" and "inode w = Some (h_ino h)"
    and "path_ino e = Some (h_ino h)" and "quiet e"
    and "length (contents e (h_ino h)) < position w"
  shows "watch_step e AtLoopTop w =
           read_step e (w\<lparr>file_h := Some (h\<lparr>h_pos := 0\<rparr>), position := 0\<rparr>)
       \<and> snd (snd (watch_step e AtLoopTop w)) =
           (case readline (contents e (h_ino h)) of (line, k) \<Rightarrow>
              if line = [] then [Sleep]
              else if rstrip_crlf line = [] then []
              else [Broadcast (log_id w) (rstrip_crlf line)])"
  using assms
  by (simp add: following_step[where h=h] tail_step_quiet[where h=h] read_step_eq case_prod_beta)

theorem truncation_resets_offset_witness:
  "file_h (following_at ''app'' 1 8) = Some \<lparr>h_ino = 1, h_pos = 8\<rparr>
   \<and> inode (following_at ''app'' 1 8) = Some 1
   \<and> path_ino (env_at 1 ''new\<newline>'') = Some 1
   \<and> quiet (env_at 1 ''new\<newline>'')
   \<and> length (contents (env_at 1 ''new\<newline>'') 1) < position (following_at ''app'' 1 8)
   \<and> watch_step (env_at 1 ''new\<newline>'') AtLoopTop (following_at ''app'' 1 8) =
       (AtLoopTop, following_at ''app'' 1 4, [Broadcast ''app'' ''new''])"
  using truncation_resets_offset
    [of "following_at ''app'' 1 8" "\<lparr>h_ino = 1, h_pos = 8\<rparr>" "env_at 1 ''new\<newline>''"]
  by (simp add: cycle_defs quiet_def)



text \<open>
  Claim C7 says that between cycles the handle is there if and only if the inode is.
  \<^verbatim>\<open>_close_file\<close> clears the handle only. After a first open and the disappearance of
  the path, the watcher waits with no handle and with the inode of the file it had.
\<close>

theorem closed_handle_keeps_inode:
  "run [env_at 1 ''x\<newline>'', env_missing] AtLoopTop (new_watcher ''app'') =
     (InWaitForFile True,
      \<lparr>log_id = ''app'', file_h = None, inode = Some 1, first_open = False, position = 2\<rparr>,
      [Sleep, Sleep])"
  by (simp add: cycle_defs)

text \<open>
  Claim C7, amended. Between cycles, a watcher that holds a handle has recorded the
  inode the handle was opened on (the converse fails, as above). \<^verbatim>\<open>_open_file\<close> sets both
  or clears both.
\<close>

theorem handle_implies_identity:
  "(run es AtLoopTop (new_watcher lid) = (pc, w, evs) \<longrightarrow> file_h w = Some h \<longrightarrow>
      inode w = Some (h_ino h))
   \<and> (file_h (open_file e w0) = None \<longleftrightarrow> inode (open_file e w0) = None)
   \<and> (file_h (open_file e w0) = Some h0 \<longrightarrow> inode (open_file e w0) = Some (h_ino h0))"
proof (intro conjI impI)
  assume "run es AtLoopTop (new_watcher lid) = (pc, w, evs)" and "file_h w = Some h"
  then show "inode w = Some (h_ino h)"
    using reachable_wf[of es lid pc w evs] by (simp add: wf_state_def)
next
  show "file_h (open_file e w0) = None \<longleftrightarrow> inode (open_file e w0) = None"
    by (simp add: open_file_def split: option.splits)
next
  assume "file_h (open_file e w0) = Some h0"
  then show "inode (open_file e w0) = Some (h_ino h0)"
    by (auto simp: open_file_def split: option.splits if_splits)
qed

theorem handle_implies_identity_witness:
  "run [env_at 1 ''x\<newline>''] AtLoopTop (new_watcher ''app'') =
     (AtLoopTop, following_at ''app'' 1 2, [Sleep])
   \<and> file_h (following_at ''app'' 1 2) = Some \<lparr>h_ino = 1, h_pos = 2\<rparr>
   \<and> inode (following_at ''app'' 1 2) = Some 1
   \<and> file_h (open_file (env_at 3 ''y'') (new_watcher ''app'')) = Some \<lparr>h_ino = 3, h_pos = 0\<rparr>
   \<and> inode (open_file (env_at 3 ''y'') (new_watcher ''app'')) = Some 3"
  using handle_implies_identity
    [of "[env_at 1 ''x\<newline>'']" "''app''" AtLoopTop "following_at ''app'' 1 2" "[Sleep]"
        "\<lparr>h_ino = 1, h_pos = 2\<rparr>" "env_at 3 ''y''" "new_watcher ''app''"
        "\<lparr>h_ino = 3, h_pos = 0\<rparr>"]
  by (simp add: cycle_defs)





lemma rebase_following_at [simp]: "rebase k (following_at lid i k) = following_at lid i 0"
  by (simp add: rebase_def following_at_def)





lemma env_failing_sel [simp]:
  "path_ino (env_failing x i c) = Some i" "contents (env_failing x i c) i = c"
  "fails (env_failing x i c) y = (y = x)"
  by (simp_all add: env_failing_def env_at_def)

lemma reopened_step:
  assumes "path_ino e = Some i" and "quiet e"
  shows "watch_step e AtLoopTop
           (w\<lparr>file_h := Some \<lparr>h_ino = i, h_pos = 0\<rparr>, inode := Some i, position := 0\<rparr>) =
         read_step e (w\<lparr>file_h := Some \<lparr>h_ino = i, h_pos = 0\<rparr>, inode := Some i, position := 0\<rparr>)"
  using assms
  by (cases w)
     (simp add: following_step[where h = "\<lparr>h_ino = i, h_pos = 0\<rparr>"]
        tail_step_quiet[where h = "\<lparr>h_ino = i, h_pos = 0\<rparr>"])

lemma closed_stays_closed:
  assumes "file_h w = None" and "\<not> first_open w"
    and "pc = AtLoopTop \<or> pc = InWaitForFile False"
    and "\<forall>e \<in> set waits. path_ino e = None \<or> fails e OpOpen"
    and "run waits pc w = (pc', w', evs)"
  shows "file_h w' = None \<and> \<not> first_open w' \<and> log_id w' = log_id w
       \<and> (pc' = AtLoopTop \<or> pc' = InWaitForFile False) \<and> set evs \<subseteq> {Sleep}"
  using assms
proof (induction waits arbitrary: pc w evs pc' w')
  case Nil
  then show ?case by auto
next
  case (Cons e waits)
  obtain pc1 w1 evs1 where s: "watch_step e pc w = (pc1, w1, evs1)"
    by (cases "watch_step e pc w") auto
  obtain pc2 w2 evs2 where r: "run waits pc1 w1 = (pc2, w2, evs2)"
    by (cases "run waits pc1 w1") auto
  from Cons.prems(1-4) s
  have one: "file_h w1 = None" "\<not> first_open w1" "log_id w1 = log_id w"
    "pc1 = AtLoopTop \<or> pc1 = InWaitForFile False" "evs1 = [Sleep]"
    by (auto simp: watch_step_def wait_for_file_def reopen_step_def open_file_def Let_def
        split: option.splits if_splits)
  from Cons.prems(4) have "\<forall>e \<in> set waits. path_ino e = None \<or> fails e OpOpen" by simp
  from Cons.IH[OF one(1,2,4) this r] one(3,5) Cons.prems(5) s r
  show ?case by auto
qed

text \<open>
  Claim C10 says that after an error and the reopen that follows it, all content of the
  file is published again. The reopen does start at byte 0, but a line with nothing in it
  stops the watcher as it does anywhere (claim C9). Here the file holds a line \<open>a\<close>, an
  empty line and a line \<open>b\<close>. The watcher opens it for the first time, one call of
  \<^verbatim>\<open>os.path.getsize\<close> fails, and in the three cycles after that the watcher publishes
  \<open>a\<close> and then stays at the empty line: \<open>b\<close> is not published again.
\<close>

theorem error_reopen_stops_at_blank_line:
  "run [env_at 1 ''a\<newline>\<newline>b\<newline>'', env_failing OpGetsize 1 ''a\<newline>\<newline>b\<newline>'', env_at 1 ''a\<newline>\<newline>b\<newline>'',
        env_at 1 ''a\<newline>\<newline>b\<newline>'', env_at 1 ''a\<newline>\<newline>b\<newline>'']
       AtLoopTop (new_watcher ''app'') =
     (AtLoopTop, (following_at ''app'' 1 2)\<lparr>file_h := Some \<lparr>h_ino = 1, h_pos = 3\<rparr>\<rparr>,
      [Sleep, WatchError, Sleep, Broadcast ''app'' ''a''])"
  by (simp add: cycle_defs env_failing_def)

text \<open>
  Claim C10, amended. A watcher is past its first open and a cycle goes through the
  handler of \<^verbatim>\<open>watch\<close>. The cycle ends at the top of the loop with the handle closed and
  \<open>first_open\<close> still cleared. Cycles in which the path is missing or cannot be opened
  publish nothing and change none of this. In the first cycle after them in which the path
  exists and no call fails, neither seek applies: the cycle is the read step from a fresh
  handle with the recorded offset at 0, whether or not the file behind the path is the
  one read before. So the content of the file is published again from its first byte, up
  to the first empty line: for a file that starts with lines with something in them, each
  closed by a line feed, and then ends or goes on with an empty line (and holds no \<open>CR\<close>),
  the cycles from there on publish these lines, one per cycle, in order, and after them
  nothing, however many cycles follow.
\<close>

theorem error_reopen_replays_file:
  assumes "\<not> first_open w" and "watch_step e1 pc w = (pc1, w1, evs1)"
    and "WatchError \<in> set evs1"
    and "\<forall>e \<in> set waits. path_ino e = None \<or> fails e OpOpen"
    and "run waits pc1 w1 = (pc2, w2, evs2)"
    and "path_ino e2 = Some i" and "quiet e2"
  shows "pc1 = AtLoopTop \<and> file_h w1 = None \<and> \<not> first_open w1
       \<and> file_h w2 = None \<and> set evs2 \<subseteq> {Sleep}
       \<and> watch_step e2 pc2 w2 =
           read_step e2 (w2\<lparr>file_h := Some \<lparr>h_ino = i, h_pos = 0\<rparr>, inode := Some i,
                            position := 0\<rparr>)
       \<and> ((\<forall>l \<in> set ls. plain l) \<longrightarrow> contents e2 i = join_lines ls @ rest \<longrightarrow>
            (rest = [] \<or> hd rest = LF) \<longrightarrow> CR \<notin> set rest \<longrightarrow>
            snd (snd (run (replicate (length ls + m) e2) pc2 w2)) =
              map (Broadcast (log_id w)) ls @ (if rest = [] then replicate m Sleep else []))"
proof -
  have h: "handled w (watch_step e1 pc w)" by (rule handled_watch_step)
  with assms(1-3) have st1: "pc1 = AtLoopTop" "file_h w1 = None" "\<not> first_open w1"
    "log_id w1 = log_id w"
    by (simp_all add: handled_def)
  from closed_stays_closed[OF st1(2,3) _ assms(4,5)] st1(1,4)
  have st: "file_h w2 = None" "\<not> first_open w2" "log_id w2 = log_id w"
    "pc2 = AtLoopTop \<or> pc2 = InWaitForFile False" "set evs2 \<subseteq> {Sleep}"
    by simp_all
  let ?v = "w2\<lparr>file_h := Some \<lparr>h_ino = i, h_pos = 0\<rparr>, inode := Some i, position := 0\<rparr>"
  have reopen: "watch_step e2 pc2 w2 = read_step e2 ?v"
    by (rule reopen_quiet[where r = False]) (use st assms(6,7) in simp_all)
  have lines: "snd (snd (run (replicate (length ls + m) e2) pc2 w2)) =
      map (Broadcast (log_id w)) ls @ (if rest = [] then replicate m Sleep else [])"
    if ls: "\<forall>l \<in> set ls. plain l" and c: "contents e2 i = join_lines ls @ rest"
      and r: "rest = [] \<or> hd rest = LF" "CR \<notin> set rest"
  proof (cases "length ls + m")
    case 0
    then show ?thesis by simp
  next
    case (Suc n)
    have same: "watch_step e2 pc2 w2 = watch_step e2 AtLoopTop ?v"
      unfolding reopen by (rule reopened_step[OF assms(6,7), symmetric])
    have "snd (snd (run (replicate (length ls + m) e2) AtLoopTop ?v)) =
        map (Broadcast (log_id ?v)) ls @ (if rest = [] then replicate m Sleep else [])"
      by (rule lines_then_nothing[where h = "\<lparr>h_ino = i, h_pos = 0\<rparr>" and pre = "[]"])
         (use ls c r assms(6,7) in simp_all)
    moreover have "run (replicate (length ls + m) e2) pc2 w2 =
        run (replicate (length ls + m) e2) AtLoopTop ?v"
      using same by (simp add: Suc)
    ultimately show ?thesis using st(3) by simp
  qed
  from st1 st reopen lines show ?thesis by blast
qed

theorem error_reopen_replays_file_witness:
  "\<not> first_open (following_at ''app'' 1 5)
   \<and> watch_step (env_failing OpReadline 1 ''a\<newline>\<newline>b\<newline>'') AtLoopTop (following_at ''app'' 1 5) =
        (AtLoopTop, (following_at ''app'' 1 5)\<lparr>file_h := None\<rparr>, [WatchError, Sleep])
   \<and> WatchError \<in> set [WatchError, Sleep]
   \<and> (path_ino env_missing = None \<or> fails env_missing OpOpen)
   \<and> run [env_missing] AtLoopTop ((following_at ''app'' 1 5)\<lparr>file_h := None\<rparr>) =
        (InWaitForFile False, (following_at ''app'' 1 5)\<lparr>file_h := None\<rparr>, [Sleep])
   \<and> path_ino (env_at 1 ''a\<newline>\<newline>b\<newline>'') = Some 1 \<and> quiet (env_at 1 ''a\<newline>\<newline>b\<newline>'')
   \<and> plain ''a'' \<and> contents (env_at 1 ''a\<newline>\<newline>b\<newline>'') 1 = join_lines [''a''] @ ''\<newline>b\<newline>''
   \<and> hd ''\<newline>b\<newline>'' = LF \<and> CR \<notin> set ''\<newline>b\<newline>''
   \<and> watch_step (env_at 1 ''a\<newline>\<newline>b\<newline>'') (InWaitForFile False)
        ((following_at ''app'' 1 5)\<lparr>file_h := None\<rparr>) =
        (AtLoopTop, following_at ''app'' 1 2, [Broadcast ''app'' ''a''])
   \<and> snd (snd (run (replicate 3 (env_at 1 ''a\<newline>\<newline>b\<newline>'')) (InWaitForFile False)
                  ((following_at ''app'' 1 5)\<lparr>file_h := None\<rparr>))) =
        [Broadcast ''app'' ''a'']"
proof -
  have s: "watch_step (env_failing OpReadline 1 ''a\<newline>\<newline>b\<newline>'') AtLoopTop (following_at ''app'' 1 5) =
        (AtLoopTop, (following_at ''app'' 1 5)\<lparr>file_h := None\<rparr>, [WatchError, Sleep])"
    by (simp add: cycle_defs env_failing_def)
  have r: "run [env_missing] AtLoopTop ((following_at ''app'' 1 5)\<lparr>file_h := None\<rparr>) =
        (InWaitForFile False, (following_at ''app'' 1 5)\<lparr>file_h := None\<rparr>, [Sleep])"
    by (simp add: cycle_defs)
  from error_reopen_replays_file
    [OF _ s _ _ r, of "env_at 1 ''a\<newline>\<newline>b\<newline>''" 1 "[''a'']" "''\<newline>b\<newline>''" 2]
  show ?thesis using s r
    by (simp add: cycle_defs quiet_def plain_def join_lines_def numeral_3_eq_3)
qed

section \<open>The attach handler\<close>

lemma get_last_lines_small:
  "length content \<le> 8192 \<Longrightarrow> 0 < n \<Longrightarrow>
   get_last_lines (Some content) n = spec_last_lines content n"
  by (rule get_last_lines_correct) auto

text \<open>
  Claim C8 says that the handler sends the historical message first and only then puts the
  channel into the live set. The program starts with \<^verbatim>\<open>manager.connect\<close>, which accepts
  the connection and adds the channel at once; the historical lines are gathered and
  sent after that. With one watched file holding one line, the effects of the handler on
  channel 7 are the handshake, the entry into the live set, and then the send.
\<close>

theorem endpoint_subscribes_first:
  "websocket_endpoint [(''app'', ''/var/log/app.log'')]
       (map_of [(''/var/log/app.log'', ''x\<newline>'')]) (7::nat) [] =
     ([7], [Accept 7, Subscribe 7, Send 7 (Historical [''[app] x''])])
   \<and> \<not> history_then_subscribe (7::nat)
         (snd (websocket_endpoint [(''app'', ''/var/log/app.log'')]
                 (map_of [(''/var/log/app.log'', ''x\<newline>'')]) 7 []))"
  by (simp add: websocket_endpoint_def connect_def set_add_def gather_history_def label_def
      get_last_lines_small spec_last_lines_def slice_last_def nonblank_def is_space_def)

text \<open>
  Claim C8, amended. For every new connection the handler first accepts it and adds the
  channel to the live set; then it gathers the last five lines of each watched file, each
  labelled with its log id, in the order of the configuration; then it sends them to the
  channel in one historical message, or sends nothing when there is no line at all.
\<close>

theorem endpoint_subscribes_then_sends_history:
  "websocket_endpoint LOG_FILES fs websocket conns =
     (set_add websocket conns,
      [Accept websocket, Subscribe websocket]
        @ (if gather_history LOG_FILES fs = [] then []
           else [Send websocket (Historical (gather_history LOG_FILES fs))]))
   \<and> websocket \<in> set (fst (websocket_endpoint LOG_FILES fs websocket conns))
   \<and> gather_history [] fs = []
   \<and> gather_history ((lid, path) # rest) fs =
        map (label lid) (get_last_lines (fs path) 5) @ gather_history rest fs"
  by (simp add: websocket_endpoint_def connect_def set_add_def gather_history_def)

end
